theory Spec2Isabelle
  imports Main "HOL-Library.Multiset"
begin

section \<open>The fast downloader of goroutines.go\<close>

text \<open>
  The program under study is the downloader of \<^verbatim>\<open>src/goroutines.go\<close>:
  \<^verbatim>\<open>
  func download(site string, c chan string) {
      fmt.Println("Starting download from:", site)
      time.Sleep(2 * time.Second)
      c <- site + " is done!"
  }

  func main() {
      c := make(chan string)
      go download("Google.com", c)
      go download("Amazon.com", c)
      go download("Github.com", c)
      fmt.Println(<-c)
      fmt.Println(<-c)
      fmt.Println(<-c)
      fmt.Println("All downloads finished!")
  }
  \<close>
  It is a concurrent program, so it is embedded as a transition system: a state holds
  the program counter of \<open>main\<close>, the program counter of every goroutine started so
  far, and the log of what has been printed and received. A scheduler picks which
  goroutine moves next; an execution is the list of its picks.
\<close>

subsection \<open>Data\<close>

text \<open>
  Where a \<open>download\<close> goroutine stands: before line 30, in the sleep of line 31, at
  the send of line 32, or past it. \<open>Sent\<close> says that the send has completed. The
  function has no statement left then; whether the goroutine gets to return before
  \<open>main\<close> ends the process is not observable and is not part of the state.
\<close>

datatype dpc = Starting | Sleeping | Sending | Sent

text \<open>
  Where \<open>main\<close> stands. \<open>Creating\<close> is line 37, \<open>Launching i\<close> the \<open>i\<close>-th
  \<open>go\<close> statement (lines 40 to 42), \<open>Receiving k\<close> the receive \<open><-c\<close> of the
  \<open>k\<close>-th statement of lines 46 to 48, \<open>Printing k v\<close> the \<open>fmt.Println\<close> of the
  same statement once the value \<open>v\<close> has been received, \<open>Finishing\<close> line 50, and
  \<open>Exited\<close> the return of \<open>main\<close>, which ends the process.
\<close>

datatype mpc = Creating | Launching nat | Receiving nat | Printing nat string
  | Finishing | Exited

text \<open>What an observer sees: a line on standard output, or a value leaving the
  channel.\<close>

datatype event = Printed string | Received string

record state =
  mainpc :: mpc
  goroutines :: "(string \<times> dpc) list"
  trace :: "event list"

text \<open>The scheduler's pick: \<open>main\<close> moves on its own, the \<open>j\<close>-th download moves on
  its own, or the \<open>j\<close>-th download and \<open>main\<close> meet on the channel.\<close>

datatype choice = Main | Download nat | Handoff nat

subsection \<open>The program\<close>

text \<open>Line 30: \<open>fmt.Println\<close> separates its operands by a space.\<close>

definition starting_line :: "string \<Rightarrow> string" where
  "starting_line site = ''Starting download from:'' @ '' '' @ site"

text \<open>Line 32: the value sent is \<open>site + " is done!"\<close>.\<close>

definition done_message :: "string \<Rightarrow> string" where
  "done_message site = site @ '' is done!''"

definition finished_line :: string where
  "finished_line = ''All downloads finished!''"

text \<open>The arguments of the three \<open>go download\<close> statements, in program order.\<close>

definition main_sites :: "string list" where
  "main_sites = [''Google.com'', ''Amazon.com'', ''Github.com'']"

text \<open>
  The transition system takes the list of sites as a parameter, \<open>main\<close> being its
  instance at \<open>main_sites\<close>: one \<open>go download\<close> per site, then one
  \<open>fmt.Println(<-c)\<close> per site, then the last line.
\<close>

definition after_recv :: "string list \<Rightarrow> nat \<Rightarrow> mpc" where
  "after_recv sites k = (if k < length sites then Receiving k else Finishing)"

definition after_launch :: "string list \<Rightarrow> nat \<Rightarrow> mpc" where
  "after_launch sites i = (if i < length sites then Launching i else after_recv sites 0)"

text \<open>
  A step of \<open>main\<close> alone. At a receive it has none: the channel of line 37 has no
  buffer, and the receive waits for a sender (see \<open>handoff\<close>).
\<close>

definition main :: "string list \<Rightarrow> state \<Rightarrow> state option" where
  "main sites s =
     (case mainpc s of
        Creating \<Rightarrow> Some (s\<lparr>mainpc := after_launch sites 0\<rparr>)
      | Launching i \<Rightarrow>
          (if i < length sites
           then Some (s\<lparr>mainpc := after_launch sites (Suc i),
                        goroutines := goroutines s @ [(sites ! i, Starting)]\<rparr>)
           else None)
      | Receiving k \<Rightarrow> None
      | Printing k v \<Rightarrow>
          Some (s\<lparr>mainpc := after_recv sites (Suc k), trace := trace s @ [Printed v]\<rparr>)
      | Finishing \<Rightarrow>
          Some (s\<lparr>mainpc := Exited, trace := trace s @ [Printed finished_line]\<rparr>)
      | Exited \<Rightarrow> None)"

text \<open>
  A step of the \<open>j\<close>-th download alone: the print of line 30, then the end of the
  sleep of line 31. At the send of line 32 it has none, and it has none once \<open>main\<close>
  has returned.
\<close>

definition download :: "nat \<Rightarrow> state \<Rightarrow> state option" where
  "download j s =
     (if mainpc s = Exited \<or> \<not> j < length (goroutines s) then None
      else case goroutines s ! j of
        (site, Starting) \<Rightarrow>
          Some (s\<lparr>goroutines := (goroutines s)[j := (site, Sleeping)],
                  trace := trace s @ [Printed (starting_line site)]\<rparr>)
      | (site, Sleeping) \<Rightarrow> Some (s\<lparr>goroutines := (goroutines s)[j := (site, Sending)]\<rparr>)
      | (site, Sending) \<Rightarrow> None
      | (site, Sent) \<Rightarrow> None)"

text \<open>
  The send of line 32 and a receive of lines 46 to 48 happen together: the \<open>j\<close>-th
  download stands at its send, \<open>main\<close> at a receive, the value passes, and the
  download is past its send.
\<close>

definition handoff :: "nat \<Rightarrow> state \<Rightarrow> state option" where
  "handoff j s =
     (case mainpc s of
        Receiving k \<Rightarrow>
          (if j < length (goroutines s) \<and> snd (goroutines s ! j) = Sending
           then let site = fst (goroutines s ! j) in
             Some (s\<lparr>mainpc := Printing k (done_message site),
                     goroutines := (goroutines s)[j := (site, Sent)],
                     trace := trace s @ [Received (done_message site)]\<rparr>)
           else None)
      | _ \<Rightarrow> None)"

fun exec :: "string list \<Rightarrow> choice \<Rightarrow> state \<Rightarrow> state option" where
  "exec sites Main s = main sites s"
| "exec sites (Download j) s = download j s"
| "exec sites (Handoff j) s = handoff j s"

text \<open>An execution under a schedule; \<open>None\<close> when the schedule picks a goroutine
  that cannot move.\<close>

fun run :: "string list \<Rightarrow> choice list \<Rightarrow> state \<Rightarrow> state option" where
  "run sites [] s = Some s"
| "run sites (c # cs) s =
     (case exec sites c s of None \<Rightarrow> None | Some s' \<Rightarrow> run sites cs s')"

definition init :: state where
  "init = \<lparr>mainpc = Creating, goroutines = [], trace = []\<rparr>"

text \<open>The picks that can move in a state.\<close>

definition enabled :: "string list \<Rightarrow> state \<Rightarrow> choice list" where
  "enabled sites s =
     filter (\<lambda>c. exec sites c s \<noteq> None)
       (Main # map Download [0..<length (goroutines s)]
          @ map Handoff [0..<length (goroutines s)])"

subsection \<open>Observations\<close>

text \<open>The values \<open>main\<close> has received, and the lines printed, in order.\<close>

fun received_of :: "event list \<Rightarrow> string list" where
  "received_of [] = []"
| "received_of (Received v # es) = v # received_of es"
| "received_of (Printed l # es) = received_of es"

fun printed_of :: "event list \<Rightarrow> string list" where
  "printed_of [] = []"
| "printed_of (Received v # es) = printed_of es"
| "printed_of (Printed l # es) = l # printed_of es"

definition received :: "state \<Rightarrow> string list" where
  "received s = received_of (trace s)"

definition printed :: "state \<Rightarrow> string list" where
  "printed s = printed_of (trace s)"

text \<open>The goroutines started so far, and the sites of those that have completed their
  send.\<close>

definition dispatched :: "state \<Rightarrow> nat" where
  "dispatched s = length (goroutines s)"

definition sent_sites :: "state \<Rightarrow> string list" where
  "sent_sites s = map fst (filter (\<lambda>g. snd g = Sent) (goroutines s))"

subsection \<open>Bookkeeping for the proofs\<close>

text \<open>How many \<open>go\<close> statements \<open>main\<close> has passed, and how many values it has
  received, as its program counter tells.\<close>

fun launched :: "string list \<Rightarrow> mpc \<Rightarrow> nat" where
  "launched sites Creating = 0"
| "launched sites (Launching i) = i"
| "launched sites pc = length sites"

fun pulls :: "string list \<Rightarrow> mpc \<Rightarrow> nat" where
  "pulls sites Creating = 0"
| "pulls sites (Launching i) = 0"
| "pulls sites (Receiving k) = k"
| "pulls sites (Printing k v) = Suc k"
| "pulls sites Finishing = length sites"
| "pulls sites Exited = length sites"

text \<open>The counters of \<open>main\<close> stay within the program, and the value it is about to
  print is never the closing line.\<close>

fun pc_ok :: "string list \<Rightarrow> mpc \<Rightarrow> bool" where
  "pc_ok sites (Launching i) = (i < length sites)"
| "pc_ok sites (Receiving k) = (k < length sites)"
| "pc_ok sites (Printing k v) = (k < length sites \<and> v \<noteq> finished_line)"
| "pc_ok sites pc = True"

text \<open>
  The invariant of the transition system: the goroutines started are those of the sites
  passed so far, in order; \<open>main\<close> has received as many values as its program counter
  says; and the values received are the messages of the downloads that have completed
  their send, one each.
\<close>

definition consistent :: "string list \<Rightarrow> state \<Rightarrow> bool" where
  "consistent sites s \<longleftrightarrow>
     pc_ok sites (mainpc s) \<and>
     map fst (goroutines s) = take (launched sites (mainpc s)) sites \<and>
     length (received s) = pulls sites (mainpc s) \<and>
     mset (received s) = mset (map done_message (sent_sites s))"

text \<open>The number of picks a state still allows: each download prints and wakes up,
  each site costs \<open>main\<close> a launch, a receive and a print.\<close>

fun download_left :: "dpc \<Rightarrow> nat" where
  "download_left Starting = 2"
| "download_left Sleeping = 1"
| "download_left Sending = 0"
| "download_left Sent = 0"

fun main_left :: "string list \<Rightarrow> mpc \<Rightarrow> nat" where
  "main_left sites Creating = 5 * length sites + 2"
| "main_left sites (Launching i) = 3 * (length sites - i) + 2 * length sites + 1"
| "main_left sites (Receiving k) = 2 * (length sites - k) + 1"
| "main_left sites (Printing k v) = 2 * (length sites - k)"
| "main_left sites Finishing = 1"
| "main_left sites Exited = 0"

definition steps_left :: "string list \<Rightarrow> state \<Rightarrow> nat" where
  "steps_left sites s =
     main_left sites (mainpc s) + sum_list (map (\<lambda>g. download_left (snd g)) (goroutines s))"

text \<open>The value \<open>main\<close> has received and not printed yet.\<close>

fun pending :: "mpc \<Rightarrow> string multiset" where
  "pending (Printing k v) = {#v#}"
| "pending pc = {#}"

text \<open>
  The order of events: the closing line is printed once, as the last event, after all
  the values have been received and printed; before that, every value received has
  been printed, the pending one apart.
\<close>

definition chronological :: "string list \<Rightarrow> state \<Rightarrow> bool" where
  "chronological sites s \<longleftrightarrow>
     (if mainpc s = Exited
      then \<exists>pre. trace s = pre @ [Printed finished_line] \<and> Printed finished_line \<notin> set pre \<and>
             length (received_of pre) = length sites \<and>
             mset (received_of pre) \<subseteq># mset (printed_of pre)
      else Printed finished_line \<notin> set (trace s) \<and>
             mset (received s) \<subseteq># mset (printed s) + pending (mainpc s))"

subsection \<open>Schedules\<close>







text \<open>
  Concrete executions of \<open>main\<close>, each with the state it ends in: the three \<open>go\<close>
  statements only; a whole run with the values arriving in program order; a whole run,
  interleaved, with Amazon first and Google last, and its prefix up to the first
  arrival; and a run of two downloads of the same site.
\<close>

definition launch_only :: "choice list" where
  "launch_only = [Main, Main, Main, Main]"

definition all_launched :: state where
  "all_launched =
     \<lparr>mainpc = Receiving 0,
      goroutines = [(''Google.com'', Starting), (''Amazon.com'', Starting),
                    (''Github.com'', Starting)],
      trace = []\<rparr>"

definition in_order :: "choice list" where
  "in_order = [Main, Main, Main, Main,
     Download 0, Download 1, Download 2, Download 0, Download 1, Download 2,
     Handoff 0, Main, Handoff 1, Main, Handoff 2, Main, Main]"

definition in_order_end :: state where
  "in_order_end =
     \<lparr>mainpc = Exited,
      goroutines = [(''Google.com'', Sent), (''Amazon.com'', Sent),
                    (''Github.com'', Sent)],
      trace = [Printed ''Starting download from: Google.com'',
               Printed ''Starting download from: Amazon.com'',
               Printed ''Starting download from: Github.com'',
               Received ''Google.com is done!'', Printed ''Google.com is done!'',
               Received ''Amazon.com is done!'', Printed ''Amazon.com is done!'',
               Received ''Github.com is done!'', Printed ''Github.com is done!'',
               Printed ''All downloads finished!'']\<rparr>"

definition out_of_order :: "choice list" where
  "out_of_order = [Main, Main, Download 0, Main, Main, Download 1, Download 0, Download 1,
     Handoff 1, Download 2, Main, Download 2, Handoff 2, Main, Handoff 0, Main, Main]"

definition out_of_order_end :: state where
  "out_of_order_end =
     \<lparr>mainpc = Exited,
      goroutines = [(''Google.com'', Sent), (''Amazon.com'', Sent),
                    (''Github.com'', Sent)],
      trace = [Printed ''Starting download from: Google.com'',
               Printed ''Starting download from: Amazon.com'',
               Received ''Amazon.com is done!'',
               Printed ''Starting download from: Github.com'',
               Printed ''Amazon.com is done!'',
               Received ''Github.com is done!'', Printed ''Github.com is done!'',
               Received ''Google.com is done!'', Printed ''Google.com is done!'',
               Printed ''All downloads finished!'']\<rparr>"

definition first_arrival :: "choice list" where
  "first_arrival = [Main, Main, Download 0, Main, Main, Download 1, Download 0, Download 1,
     Handoff 1]"

definition first_arrived :: state where
  "first_arrived =
     \<lparr>mainpc = Printing 0 ''Amazon.com is done!'',
      goroutines = [(''Google.com'', Sending), (''Amazon.com'', Sent),
                    (''Github.com'', Starting)],
      trace = [Printed ''Starting download from: Google.com'',
               Printed ''Starting download from: Amazon.com'',
               Received ''Amazon.com is done!'']\<rparr>"



section \<open>Properties of the transition system\<close>

subsection \<open>Lists, multisets and the three kinds of line\<close>

lemma received_of_append: "received_of (xs @ ys) = received_of xs @ received_of ys"
  by (induction xs rule: received_of.induct) simp_all

lemma printed_of_append: "printed_of (xs @ ys) = printed_of xs @ printed_of ys"
  by (induction xs rule: printed_of.induct) simp_all

lemma done_message_not_finished: "done_message site \<noteq> finished_line"
proof
  assume "done_message site = finished_line"
  then have "rev (done_message site) = rev finished_line" by simp
  then show False by (simp add: done_message_def finished_line_def)
qed

lemma starting_line_not_finished: "starting_line site \<noteq> finished_line"
  by (simp add: starting_line_def finished_line_def)

lemma filter_update_same:
  "\<not> P (xs ! j) \<Longrightarrow> \<not> P y \<Longrightarrow> j < length xs \<Longrightarrow> filter P (xs[j := y]) = filter P xs"
proof (induction xs arbitrary: j)
  case Nil
  then show ?case by simp
next
  case (Cons x xs)
  then show ?case by (cases j) simp_all
qed

lemma mset_filter_update_new:
  "\<not> P (xs ! j) \<Longrightarrow> P y \<Longrightarrow> j < length xs \<Longrightarrow>
   mset (map f (filter P (xs[j := y]))) = add_mset (f y) (mset (map f (filter P xs)))"
proof (induction xs arbitrary: j)
  case Nil
  then show ?case by simp
next
  case (Cons x xs)
  then show ?case by (cases j) simp_all
qed

lemma map_fst_update: "j < length xs \<Longrightarrow> fst y = fst (xs ! j) \<Longrightarrow> map fst (xs[j := y]) = map fst xs"
  by (simp add: map_update list_update_same_conv)

lemma sum_list_update_nat:
  "j < length xs \<Longrightarrow> sum_list (map f (xs[j := y])) + f (xs ! j) = sum_list (map f xs) + (f y :: nat)"
proof (induction xs arbitrary: j)
  case Nil
  then show ?case by simp
next
  case (Cons x xs)
  show ?case
  proof (cases j)
    case 0
    then show ?thesis by simp
  next
    case (Suc i)
    with Cons.prems have "i < length xs" by simp
    from Cons.IH [OF this] Suc show ?thesis by simp
  qed
qed

lemma filter_all_of_length:
  "length (filter P xs) = length xs \<Longrightarrow> filter P xs = xs"
proof (rule ccontr)
  assume len: "length (filter P xs) = length xs" and "filter P xs \<noteq> xs"
  then obtain x where "x \<in> set xs" "\<not> P x" by (auto simp: filter_id_conv)
  then have "length (filter P xs) < length xs" by (rule length_filter_less)
  with len show False by simp
qed



lemma consistent_init: "consistent sites init"
  by (simp add: consistent_def init_def received_def sent_sites_def)

lemma pc_ok_after_recv: "k \<le> length sites \<Longrightarrow> pc_ok sites (after_recv sites k)"
  by (simp add: after_recv_def)

lemma pulls_after_recv: "k \<le> length sites \<Longrightarrow> pulls sites (after_recv sites k) = k"
  by (simp add: after_recv_def)

lemma launched_after_recv: "launched sites (after_recv sites k) = length sites"
  by (simp add: after_recv_def)

lemma pc_ok_after_launch: "pc_ok sites (after_launch sites i)"
  by (simp add: after_launch_def after_recv_def)

lemma pulls_after_launch: "pulls sites (after_launch sites i) = 0"
  by (simp add: after_launch_def after_recv_def)

lemma launched_after_launch: "i \<le> length sites \<Longrightarrow> launched sites (after_launch sites i) = i"
  by (simp add: after_launch_def after_recv_def)

lemma consistent_main:
  assumes "consistent sites s" and "main sites s = Some s'"
  shows "consistent sites s'"
proof (cases "mainpc s")
  case Creating
  with assms show ?thesis
    by (auto simp: consistent_def main_def received_def sent_sites_def
          pc_ok_after_launch pulls_after_launch launched_after_launch)
next
  case (Launching i)
  with assms have i: "i < length sites" by (simp add: consistent_def)
  with assms Launching show ?thesis
    by (auto simp: consistent_def main_def received_def sent_sites_def
          pc_ok_after_launch pulls_after_launch launched_after_launch take_Suc_conv_app_nth)
next
  case (Receiving k)
  with assms show ?thesis by (simp add: main_def)
next
  case (Printing k v)
  with assms have k: "Suc k \<le> length sites" by (simp add: consistent_def)
  with assms Printing show ?thesis
    by (auto simp: consistent_def main_def received_def sent_sites_def received_of_append
          pc_ok_after_recv pulls_after_recv launched_after_recv)
next
  case Finishing
  with assms show ?thesis
    by (auto simp: consistent_def main_def received_def sent_sites_def received_of_append)
next
  case Exited
  with assms show ?thesis by (simp add: main_def)
qed

lemma consistent_download:
  assumes "consistent sites s" and "download j s = Some s'"
  shows "consistent sites s'"
proof -
  from assms(2) have j: "j < length (goroutines s)" and ne: "mainpc s \<noteq> Exited"
    by (auto simp: download_def split: if_splits)
  obtain site p where g: "goroutines s ! j = (site, p)" by (cases "goroutines s ! j")
  show ?thesis
  proof (cases p)
    case Starting
    with assms g j ne have s': "s' = s\<lparr>goroutines := (goroutines s)[j := (site, Sleeping)],
        trace := trace s @ [Printed (starting_line site)]\<rparr>"
      by (simp add: download_def)
    have "filter (\<lambda>g. snd g = Sent) ((goroutines s)[j := (site, Sleeping)])
        = filter (\<lambda>g. snd g = Sent) (goroutines s)"
      using g j Starting by (simp add: filter_update_same)
    with assms(1) g j show ?thesis
      by (simp add: s' consistent_def received_def sent_sites_def received_of_append map_fst_update)
  next
    case Sleeping
    with assms g j ne have s': "s' = s\<lparr>goroutines := (goroutines s)[j := (site, Sending)]\<rparr>"
      by (simp add: download_def)
    have "filter (\<lambda>g. snd g = Sent) ((goroutines s)[j := (site, Sending)])
        = filter (\<lambda>g. snd g = Sent) (goroutines s)"
      using g j Sleeping by (simp add: filter_update_same)
    with assms(1) g j show ?thesis
      by (simp add: s' consistent_def received_def sent_sites_def map_fst_update)
  next
    case Sending
    with assms g j ne show ?thesis by (simp add: download_def)
  next
    case Sent
    with assms g j ne show ?thesis by (simp add: download_def)
  qed
qed

lemma consistent_handoff:
  assumes "consistent sites s" and "handoff j s = Some s'"
  shows "consistent sites s'"
proof -
  from assms(2) obtain k where pc: "mainpc s = Receiving k"
    by (cases "mainpc s") (simp_all add: handoff_def)
  with assms(2) have j: "j < length (goroutines s)" and snd: "snd (goroutines s ! j) = Sending"
    by (auto simp: handoff_def split: if_splits)
  define site where "site = fst (goroutines s ! j)"
  from assms(2) pc j snd have s': "s' = s\<lparr>mainpc := Printing k (done_message site),
        goroutines := (goroutines s)[j := (site, Sent)],
        trace := trace s @ [Received (done_message site)]\<rparr>"
    by (simp add: handoff_def site_def Let_def)
  have "mset (map fst (filter (\<lambda>g. snd g = Sent) ((goroutines s)[j := (site, Sent)])))
        = add_mset site (mset (map fst (filter (\<lambda>g. snd g = Sent) (goroutines s))))"
    using mset_filter_update_new [of "\<lambda>g. snd g = Sent" "goroutines s" j "(site, Sent)" fst]
      j snd by simp
  then have "mset (map done_message (map fst (filter (\<lambda>g. snd g = Sent) ((goroutines s)[j := (site, Sent)]))))
        = add_mset (done_message site) (mset (map done_message (map fst (filter (\<lambda>g. snd g = Sent) (goroutines s)))))"
    by (metis image_mset_add_mset mset_map)
  with assms(1) pc j show ?thesis
    by (simp add: s' consistent_def received_def sent_sites_def received_of_append map_fst_update
          site_def done_message_not_finished)
qed

lemma consistent_exec:
  assumes "consistent sites s" and "exec sites c s = Some s'"
  shows "consistent sites s'"
proof (cases c)
  case Main
  with assms show ?thesis using consistent_main [of sites s s'] by simp
next
  case (Download j)
  with assms show ?thesis using consistent_download [of sites s j s'] by simp
next
  case (Handoff j)
  with assms show ?thesis using consistent_handoff [of sites s j s'] by simp
qed

lemma consistent_run: "consistent sites s \<Longrightarrow> run sites cs s = Some s' \<Longrightarrow> consistent sites s'"
proof (induction cs arbitrary: s)
  case Nil
  then show ?case by simp
next
  case (Cons c cs)
  from Cons.prems(2) obtain t where t: "exec sites c s = Some t" "run sites cs t = Some s'"
    by (cases "exec sites c s") simp_all
  from Cons.prems(1) t(1) have "consistent sites t" by (rule consistent_exec)
  then show ?case using t(2) by (rule Cons.IH)
qed

lemma consistent_reachable: "run sites cs init = Some s \<Longrightarrow> consistent sites s"
  using consistent_init by (rule consistent_run)

lemma main_left_after_recv:
  "k \<le> length sites \<Longrightarrow> main_left sites (after_recv sites k) = 2 * (length sites - k) + 1"
  by (simp add: after_recv_def)

lemma main_left_after_launch:
  "i \<le> length sites \<Longrightarrow>
   main_left sites (after_launch sites i) = 3 * (length sites - i) + 2 * length sites + 1"
  by (simp add: after_launch_def after_recv_def)

lemma steps_left_main:
  assumes "consistent sites s" and "main sites s = Some s'"
  shows "steps_left sites s = Suc (steps_left sites s')"
proof (cases "mainpc s")
  case Creating
  with assms(2) show ?thesis
    by (auto simp: main_def steps_left_def main_left_after_launch)
next
  case (Launching i)
  with assms have i: "i < length sites" by (simp add: consistent_def)
  then have "main_left sites (after_launch sites (Suc i)) + 3 = main_left sites (Launching i)"
    by (simp add: main_left_after_launch)
  with assms(2) Launching i show ?thesis
    by (auto simp: main_def steps_left_def)
next
  case (Receiving k)
  with assms show ?thesis by (simp add: main_def)
next
  case (Printing k v)
  with assms have k: "k < length sites" by (simp add: consistent_def)
  then have "Suc (main_left sites (after_recv sites (Suc k))) = main_left sites (Printing k v)"
    by (simp add: main_left_after_recv)
  with assms(2) Printing show ?thesis
    by (auto simp: main_def steps_left_def)
next
  case Finishing
  with assms(2) show ?thesis by (auto simp: main_def steps_left_def)
next
  case Exited
  with assms show ?thesis by (simp add: main_def)
qed

lemma steps_left_download:
  assumes "download j s = Some s'"
  shows "steps_left sites s = Suc (steps_left sites s')"
proof -
  let ?f = "\<lambda>g. download_left (snd g)"
  from assms have j: "j < length (goroutines s)"
    by (auto simp: download_def split: if_splits)
  obtain site p where g: "goroutines s ! j = (site, p)" by (cases "goroutines s ! j")
  from assms j g consider
      (print) "p = Starting" "mainpc s' = mainpc s" "goroutines s' = (goroutines s)[j := (site, Sleeping)]"
    | (wake) "p = Sleeping" "mainpc s' = mainpc s" "goroutines s' = (goroutines s)[j := (site, Sending)]"
    by (cases p) (auto simp: download_def split: if_splits)
  then show ?thesis
  proof cases
    case print
    with sum_list_update_nat [OF j, of ?f "(site, Sleeping)"] g show ?thesis
      by (simp add: steps_left_def)
  next
    case wake
    with sum_list_update_nat [OF j, of ?f "(site, Sending)"] g show ?thesis
      by (simp add: steps_left_def)
  qed
qed

lemma steps_left_handoff:
  assumes "consistent sites s" and "handoff j s = Some s'"
  shows "steps_left sites s = Suc (steps_left sites s')"
proof -
  let ?f = "\<lambda>g. download_left (snd g)"
  from assms(2) obtain k where pc: "mainpc s = Receiving k"
    by (cases "mainpc s") (simp_all add: handoff_def)
  with assms(2) have j: "j < length (goroutines s)" and snd: "snd (goroutines s ! j) = Sending"
    by (auto simp: handoff_def split: if_splits)
  from assms(1) pc have k: "k < length sites" by (simp add: consistent_def)
  from assms(2) pc j snd obtain v where
    s': "mainpc s' = Printing k v" "goroutines s' = (goroutines s)[j := (fst (goroutines s ! j), Sent)]"
    by (auto simp: handoff_def Let_def)
  from sum_list_update_nat [OF j, of ?f "(fst (goroutines s ! j), Sent)"] snd
  have "sum_list (map ?f (goroutines s')) = sum_list (map ?f (goroutines s))"
    by (simp add: s')
  with pc s' k show ?thesis by (simp add: steps_left_def)
qed

lemma steps_left_exec:
  assumes "consistent sites s" and "exec sites c s = Some s'"
  shows "steps_left sites s = Suc (steps_left sites s')"
proof (cases c)
  case Main
  with assms show ?thesis using steps_left_main [of sites s s'] by simp
next
  case (Download j)
  with assms show ?thesis using steps_left_download [of j s s' sites] by simp
next
  case (Handoff j)
  with assms show ?thesis using steps_left_handoff [of sites s j s'] by simp
qed

lemma steps_left_run:
  "consistent sites s \<Longrightarrow> run sites cs s = Some s' \<Longrightarrow>
   steps_left sites s = length cs + steps_left sites s'"
proof (induction cs arbitrary: s)
  case Nil
  then show ?case by simp
next
  case (Cons c cs)
  from Cons.prems(2) obtain t where t: "exec sites c s = Some t" "run sites cs t = Some s'"
    by (cases "exec sites c s") simp_all
  from Cons.prems(1) t(1) have "consistent sites t" by (rule consistent_exec)
  then have "steps_left sites t = length cs + steps_left sites s'" using t(2) by (rule Cons.IH)
  with steps_left_exec [OF Cons.prems(1) t(1)] show ?case by simp
qed

lemma steps_left_init: "steps_left sites init = 5 * length sites + 2"
  by (simp add: steps_left_def init_def)

lemma run_length_bound:
  assumes "run sites cs init = Some s"
  shows "length cs + steps_left sites s = 5 * length sites + 2"
  using steps_left_run [OF consistent_init assms] by (simp add: steps_left_init)

subsection \<open>When main has received everything\<close>

lemma sent_count:
  assumes "consistent sites s"
  shows "length (sent_sites s) = pulls sites (mainpc s)"
proof -
  from assms have "mset (received s) = mset (map done_message (sent_sites s))"
    by (simp add: consistent_def)
  then have "length (received s) = length (map done_message (sent_sites s))"
    by (rule mset_eq_length)
  moreover from assms have "length (received s) = pulls sites (mainpc s)"
    by (simp add: consistent_def)
  ultimately show ?thesis by simp
qed

lemma all_sent:
  assumes "consistent sites s" and "mainpc s = Finishing \<or> mainpc s = Exited"
  shows "filter (\<lambda>g. snd g = Sent) (goroutines s) = goroutines s"
    and "map fst (goroutines s) = sites"
    and "sent_sites s = sites"
proof -
  from assms have fst: "map fst (goroutines s) = sites" by (auto simp: consistent_def)
  then have len: "length (goroutines s) = length sites" by (metis length_map)
  from assms(2) sent_count [OF assms(1)] have "length (sent_sites s) = length sites"
    by auto
  then have "length (filter (\<lambda>g. snd g = Sent) (goroutines s)) = length (goroutines s)"
    by (simp add: sent_sites_def len)
  then show all: "filter (\<lambda>g. snd g = Sent) (goroutines s) = goroutines s"
    by (rule filter_all_of_length)
  show "map fst (goroutines s) = sites" by (rule fst)
  show "sent_sites s = sites" by (simp add: sent_sites_def all fst)
qed

lemma received_at_end:
  assumes "consistent sites s" and "mainpc s = Finishing \<or> mainpc s = Exited"
  shows "mset (received s) = mset (map done_message sites)"
  using assms all_sent(3) [OF assms] by (simp add: consistent_def)

subsection \<open>No deadlock\<close>

lemma enabled_iff: "c \<in> set (enabled sites s) \<longleftrightarrow>
   exec sites c s \<noteq> None \<and> (case c of Main \<Rightarrow> True | Download j \<Rightarrow> j < length (goroutines s) | Handoff j \<Rightarrow> j < length (goroutines s))"
  by (cases c) (auto simp: enabled_def)

lemma progress:
  assumes "consistent sites s" and "mainpc s \<noteq> Exited"
  shows "enabled sites s \<noteq> []"
proof (cases "mainpc s")
  case Creating
  then have "Main \<in> set (enabled sites s)" by (simp add: enabled_iff main_def)
  then show ?thesis by auto
next
  case (Launching i)
  with assms have "Main \<in> set (enabled sites s)" by (simp add: enabled_iff main_def consistent_def)
  then show ?thesis by auto
next
  case (Receiving k)
  let ?R = "\<lambda>g. snd g = Sent"
  from assms Receiving have k: "k < length sites" "length (received s) = k"
    and fst: "map fst (goroutines s) = sites"
    by (simp_all add: consistent_def)
  from fst have len: "length (goroutines s) = length sites" by (metis length_map)
  from sent_count [OF assms(1)] Receiving k len
  have "length (filter ?R (goroutines s)) < length (goroutines s)"
    by (simp add: sent_sites_def)
  then have "filter ?R (goroutines s) \<noteq> goroutines s" by auto
  then obtain g where "g \<in> set (goroutines s)" "snd g \<noteq> Sent"
    by (auto simp: filter_id_conv)
  then obtain j where j: "j < length (goroutines s)" "snd (goroutines s ! j) \<noteq> Sent"
    by (auto simp: in_set_conv_nth)
  obtain site p where g: "goroutines s ! j = (site, p)" by (cases "goroutines s ! j")
  show ?thesis
  proof (cases "p = Sending")
    case True
    with Receiving j g have "Handoff j \<in> set (enabled sites s)"
      by (simp add: enabled_iff handoff_def Let_def)
    then show ?thesis by auto
  next
    case False
    with assms(2) j g have "Download j \<in> set (enabled sites s)"
      by (cases p) (simp_all add: enabled_iff download_def)
    then show ?thesis by auto
  qed
next
  case (Printing k v)
  then have "Main \<in> set (enabled sites s)" by (simp add: enabled_iff main_def)
  then show ?thesis by auto
next
  case Finishing
  then have "Main \<in> set (enabled sites s)" by (simp add: enabled_iff main_def)
  then show ?thesis by auto
next
  case Exited
  with assms show ?thesis by simp
qed

lemma chronological_init: "chronological sites init"
  by (simp add: chronological_def init_def received_def printed_def)

lemma pending_after_recv: "pending (after_recv sites k) = {#}"
  by (simp add: after_recv_def)

lemma pending_after_launch: "pending (after_launch sites i) = {#}"
  by (simp add: after_launch_def after_recv_def)

lemma after_recv_not_Exited: "after_recv sites k \<noteq> Exited"
  by (simp add: after_recv_def)

lemma after_launch_not_Exited: "after_launch sites i \<noteq> Exited"
  by (simp add: after_launch_def after_recv_def)

lemma chronological_main:
  assumes "consistent sites s" and "chronological sites s" and "main sites s = Some s'"
  shows "chronological sites s'"
proof (cases "mainpc s")
  case Creating
  with assms(2,3) show ?thesis
    by (auto simp: chronological_def main_def received_def printed_def
          pending_after_launch after_launch_not_Exited)
next
  case (Launching i)
  with assms(2,3) show ?thesis
    by (auto simp: chronological_def main_def received_def printed_def
          pending_after_launch after_launch_not_Exited split: if_splits)
next
  case (Receiving k)
  with assms show ?thesis by (simp add: main_def)
next
  case (Printing k v)
  with assms(1) have v: "v \<noteq> finished_line" by (simp add: consistent_def)
  from assms(3) Printing have s': "s' = s\<lparr>mainpc := after_recv sites (Suc k), trace := trace s @ [Printed v]\<rparr>"
    by (simp add: main_def)
  from assms(2) Printing have old: "Printed finished_line \<notin> set (trace s)"
      "mset (received s) \<subseteq># add_mset v (mset (printed s))"
    by (simp_all add: chronological_def)
  show ?thesis
    using old v
    by (simp add: s' chronological_def after_recv_not_Exited pending_after_recv
          received_def printed_def received_of_append printed_of_append)
next
  case Finishing
  from assms(3) Finishing have s': "s' = s\<lparr>mainpc := Exited, trace := trace s @ [Printed finished_line]\<rparr>"
    by (simp add: main_def)
  from assms(2) Finishing have old: "Printed finished_line \<notin> set (trace s)"
      "mset (received_of (trace s)) \<subseteq># mset (printed_of (trace s))"
    by (simp_all add: chronological_def received_def printed_def)
  from assms(1) Finishing have "length (received_of (trace s)) = length sites"
    by (simp add: consistent_def received_def)
  with old show ?thesis by (simp add: s' chronological_def)
next
  case Exited
  with assms show ?thesis by (simp add: main_def)
qed

lemma chronological_download:
  assumes "chronological sites s" and "download j s = Some s'"
  shows "chronological sites s'"
proof -
  from assms(2) have j: "j < length (goroutines s)" and ne: "mainpc s \<noteq> Exited"
    by (auto simp: download_def split: if_splits)
  obtain site p where g: "goroutines s ! j = (site, p)" by (cases "goroutines s ! j")
  from assms(1) ne have old: "Printed finished_line \<notin> set (trace s)"
      "mset (received_of (trace s)) \<subseteq># mset (printed_of (trace s)) + pending (mainpc s)"
    by (simp_all add: chronological_def received_def printed_def)
  show ?thesis
  proof (cases p)
    case Starting
    with assms(2) g j ne have s': "mainpc s' = mainpc s"
        "trace s' = trace s @ [Printed (starting_line site)]"
      by (auto simp: download_def)
    from old(2) have "mset (received_of (trace s))
        \<subseteq># add_mset (starting_line site) (mset (printed_of (trace s)) + pending (mainpc s))"
      by (rule subset_mset.order_trans) simp
    with old(1) ne show ?thesis
      by (simp add: s' chronological_def received_def printed_def received_of_append
            printed_of_append starting_line_not_finished [symmetric])
  next
    case Sleeping
    with assms(2) g j ne have s': "mainpc s' = mainpc s" "trace s' = trace s"
      by (auto simp: download_def)
    with old ne show ?thesis
      by (simp add: chronological_def received_def printed_def)
  next
    case Sending
    with assms g j ne show ?thesis by (simp add: download_def)
  next
    case Sent
    with assms g j ne show ?thesis by (simp add: download_def)
  qed
qed

lemma chronological_handoff:
  assumes "chronological sites s" and "handoff j s = Some s'"
  shows "chronological sites s'"
proof -
  from assms(2) obtain k where pc: "mainpc s = Receiving k"
    by (cases "mainpc s") (simp_all add: handoff_def)
  with assms(2) have j: "j < length (goroutines s)" and snd: "snd (goroutines s ! j) = Sending"
    by (auto simp: handoff_def split: if_splits)
  from assms(2) pc j snd obtain v where s': "mainpc s' = Printing k v"
      "trace s' = trace s @ [Received v]"
    by (auto simp: handoff_def Let_def)
  from assms(1) pc have old: "Printed finished_line \<notin> set (trace s)"
      "mset (received_of (trace s)) \<subseteq># mset (printed_of (trace s))"
    by (simp_all add: chronological_def received_def printed_def)
  then show ?thesis
    by (simp add: s' chronological_def received_def printed_def received_of_append
          printed_of_append)
qed

lemma chronological_exec:
  assumes "consistent sites s" and "chronological sites s" and "exec sites c s = Some s'"
  shows "chronological sites s'"
proof (cases c)
  case Main
  with assms show ?thesis using chronological_main [of sites s s'] by simp
next
  case (Download j)
  with assms show ?thesis using chronological_download [of sites s j s'] by simp
next
  case (Handoff j)
  with assms show ?thesis using chronological_handoff [of sites s j s'] by simp
qed

lemma chronological_run:
  "consistent sites s \<Longrightarrow> chronological sites s \<Longrightarrow> run sites cs s = Some s' \<Longrightarrow>
   chronological sites s'"
proof (induction cs arbitrary: s)
  case Nil
  then show ?case by simp
next
  case (Cons c cs)
  from Cons.prems(3) obtain t where t: "exec sites c s = Some t" "run sites cs t = Some s'"
    by (cases "exec sites c s") simp_all
  from Cons.prems(1) t(1) have "consistent sites t" by (rule consistent_exec)
  moreover from Cons.prems(1,2) t(1) have "chronological sites t" by (rule chronological_exec)
  ultimately show ?case using t(2) by (rule Cons.IH)
qed

lemma chronological_reachable: "run sites cs init = Some s \<Longrightarrow> chronological sites s"
  using consistent_init chronological_init by (rule chronological_run)

lemma split_at_last:
  assumes "x \<notin> set pre" and "pre' @ x # post = pre @ [x]"
  shows "pre' = pre \<and> post = []"
proof (cases post rule: rev_cases)
  case Nil
  with assms show ?thesis by simp
next
  case (snoc ys y)
  with assms(2) have "(pre' @ x # ys) @ [y] = pre @ [x]" by simp
  then have "pre' @ x # ys = pre" by (simp only: append1_eq_conv)
  then have "x \<in> set pre" by auto
  with assms(1) show ?thesis by simp
qed

lemma finished_is_last:
  assumes "run sites cs init = Some s" and "trace s = pre @ Printed finished_line # post"
  shows "post = [] \<and> mainpc s = Exited \<and> length (received_of pre) = length sites \<and>
         mset (received_of pre) \<subseteq># mset (printed_of pre)"
proof -
  from assms(1) have chr: "chronological sites s" by (rule chronological_reachable)
  from assms(2) have mem: "Printed finished_line \<in> set (trace s)" by simp
  with chr have ex: "mainpc s = Exited" by (auto simp: chronological_def split: if_splits)
  with chr obtain p where p: "trace s = p @ [Printed finished_line]"
      "Printed finished_line \<notin> set p" "length (received_of p) = length sites"
      "mset (received_of p) \<subseteq># mset (printed_of p)"
    by (auto simp: chronological_def)
  from p(1) assms(2) have "pre @ Printed finished_line # post = p @ [Printed finished_line]"
    by simp
  with p(2) have "pre = p \<and> post = []" by (rule split_at_last)
  with p ex show ?thesis by simp
qed

subsection \<open>Executions built to order\<close>

lemma run_append:
  "run sites (cs @ ds) s = (case run sites cs s of None \<Rightarrow> None | Some t \<Rightarrow> run sites ds t)"
  by (induction cs arbitrary: s) (simp_all split: option.splits)








lemmas program_defs = main_sites_def init_def main_def download_def handoff_def
  after_launch_def after_recv_def done_message_def starting_line_def finished_line_def Let_def

lemma run_launch_only: "run main_sites launch_only init = Some all_launched"
  by (simp add: launch_only_def all_launched_def program_defs)

lemma run_in_order: "run main_sites in_order init = Some in_order_end"
  by (simp add: in_order_def in_order_end_def program_defs)

lemma run_out_of_order: "run main_sites out_of_order init = Some out_of_order_end"
  by (simp add: out_of_order_def out_of_order_end_def program_defs)

lemma run_first_arrival: "run main_sites first_arrival init = Some first_arrived"
  by (simp add: first_arrival_def first_arrived_def program_defs)





lemma received_le_dispatched:
  assumes "consistent sites s"
  shows "length (received s) \<le> dispatched s" and "dispatched s \<le> length sites"
proof -
  from assms have "mset (received s) = mset (map done_message (sent_sites s))"
    by (simp add: consistent_def)
  then have "length (received s) = length (map done_message (sent_sites s))"
    by (rule mset_eq_length)
  then show "length (received s) \<le> dispatched s"
    by (simp add: sent_sites_def dispatched_def)
  from assms have "map fst (goroutines s) = take (launched sites (mainpc s)) sites"
    by (simp add: consistent_def)
  then have "length (goroutines s) = length (take (launched sites (mainpc s)) sites)"
    by (metis length_map)
  then show "dispatched s \<le> length sites" by (simp add: dispatched_def)
qed

subsection \<open>Every run can be completed\<close>

lemma enabled_exec:
  assumes "c \<in> set (enabled sites s)"
  shows "\<exists>t. exec sites c s = Some t"
  using assms by (auto simp: enabled_iff)

lemma enabled_Exited: "mainpc s = Exited \<Longrightarrow> enabled sites s = []"
  by (auto simp: enabled_def main_def download_def handoff_def filter_empty_conv)

lemma at_rest_Exited:
  assumes "consistent sites s" and "enabled sites s = []"
  shows "mainpc s = Exited"
  using progress [OF assms(1)] assms(2) by blast

lemma can_finish:
  "consistent sites s \<Longrightarrow> \<exists>more s'. run sites more s = Some s' \<and> mainpc s' = Exited"
proof (induction "steps_left sites s" arbitrary: s rule: less_induct)
  case less
  show ?case
  proof (cases "mainpc s = Exited")
    case True
    then have "run sites [] s = Some s \<and> mainpc s = Exited" by simp
    then show ?thesis by blast
  next
    case False
    with less.prems have "enabled sites s \<noteq> []" by (rule progress)
    then obtain c where "c \<in> set (enabled sites s)" by (cases "enabled sites s") auto
    then obtain t where t: "exec sites c s = Some t" using enabled_exec by blast
    from less.prems t have ct: "consistent sites t" by (rule consistent_exec)
    from steps_left_exec [OF less.prems t] have "steps_left sites t < steps_left sites s"
      by simp
    from less.hyps [OF this ct] obtain more s' where
      "run sites more t = Some s'" "mainpc s' = Exited" by blast
    with t have "run sites (c # more) s = Some s' \<and> mainpc s' = Exited" by simp
    then show ?thesis by blast
  qed
qed

lemma unsent_can_move:
  assumes "consistent sites s" and "j < length (goroutines s)"
    and "snd (goroutines s ! j) = Starting \<or> snd (goroutines s ! j) = Sleeping"
  shows "download j s \<noteq> None"
proof -
  have "mainpc s \<noteq> Exited"
  proof
    assume "mainpc s = Exited"
    with all_sent(1) [OF assms(1)]
    have "filter (\<lambda>g. snd g = Sent) (goroutines s) = goroutines s" by simp
    then have "\<forall>g\<in>set (goroutines s). snd g = Sent" by (simp add: filter_id_conv)
    with assms(2) have "snd (goroutines s ! j) = Sent" by simp
    with assms(3) show False by simp
  qed
  moreover obtain site p where "goroutines s ! j = (site, p)" by (cases "goroutines s ! j")
  ultimately show ?thesis using assms(2,3) by (auto simp: download_def)
qed

section \<open>The claims\<close>


text \<open>
  Claim C1. Running \<open>main\<close>, that is the three downloads of "Google.com",
  "Amazon.com" and "Github.com", delivers exactly the three values
  "Google.com is done!", "Amazon.com is done!" and "Github.com is done!", in some order.
  Every execution has at most 17 steps; as long as \<open>main\<close> has not returned some
  goroutine can move, so an execution never gets stuck before the end; and once
  \<open>main\<close> has returned, the values it received are these three, as a multiset.
\<close>

theorem main_delivers_three_results:
  assumes "run main_sites sched init = Some s"
  shows "length sched \<le> 17 \<and>
         (if mainpc s = Exited
          then mset (received s) =
                 {#''Google.com is done!'', ''Amazon.com is done!'', ''Github.com is done!''#}
          else enabled main_sites s \<noteq> [])"
proof -
  from assms have c: "consistent main_sites s" by (rule consistent_reachable)
  from run_length_bound [OF assms] have "length sched \<le> 17" by (simp add: main_sites_def)
  moreover have "mset (received s) =
      {#''Google.com is done!'', ''Amazon.com is done!'', ''Github.com is done!''#}"
    if "mainpc s = Exited"
    using received_at_end [OF c] that by (simp add: main_sites_def done_message_def)
  moreover have "enabled main_sites s \<noteq> []" if "mainpc s \<noteq> Exited"
    using c that by (rule progress)
  ultimately show ?thesis by simp
qed

text \<open>An interleaved run in which Amazon arrives first and Google last, and the point
  where the three downloads have just been started.\<close>

theorem main_delivers_three_results_witness:
  "run main_sites out_of_order init = Some out_of_order_end \<and>
   length out_of_order \<le> 17 \<and> mainpc out_of_order_end = Exited \<and>
   received out_of_order_end =
     [''Amazon.com is done!'', ''Github.com is done!'', ''Google.com is done!''] \<and>
   mset (received out_of_order_end) =
     {#''Google.com is done!'', ''Amazon.com is done!'', ''Github.com is done!''#} \<and>
   run main_sites launch_only init = Some all_launched \<and>
   mainpc all_launched \<noteq> Exited \<and> enabled main_sites all_launched \<noteq> []"
  using main_delivers_three_results [OF run_out_of_order]
    main_delivers_three_results [OF run_launch_only]
  by (simp add: run_out_of_order run_launch_only received_def out_of_order_end_def
        all_launched_def)





text \<open>
  Claim C6. At every point of every execution the number of values received is at most
  the number of downloads dispatched (which is at most the number of sites), and when
  \<open>main\<close> has returned the two are equal, every site having been dispatched.
\<close>

theorem runstate_invariant:
  assumes "run sites sched init = Some s"
  shows "length (received s) \<le> dispatched s \<and> dispatched s \<le> length sites \<and>
         (mainpc s = Exited \<longrightarrow>
            length (received s) = dispatched s \<and> dispatched s = length sites)"
proof -
  from assms have c: "consistent sites s" by (rule consistent_reachable)
  have "length (received s) = dispatched s \<and> dispatched s = length sites"
    if ex: "mainpc s = Exited"
  proof -
    from c ex have "length (received s) = length sites" by (simp add: consistent_def)
    moreover from all_sent(2) [OF c] ex have "map fst (goroutines s) = sites" by simp
    then have "length (goroutines s) = length sites" by (metis length_map)
    ultimately show ?thesis by (simp add: dispatched_def)
  qed
  with received_le_dispatched [OF c] show ?thesis by blast
qed

text \<open>After the first arrival one value of three dispatched has been received; at the end
  of a run, three of three.\<close>

theorem runstate_invariant_witness:
  "run main_sites first_arrival init = Some first_arrived \<and>
   length (received first_arrived) = 1 \<and> dispatched first_arrived = 3 \<and>
   length (received first_arrived) \<le> dispatched first_arrived \<and>
   run main_sites in_order init = Some in_order_end \<and> mainpc in_order_end = Exited \<and>
   length (received in_order_end) = dispatched in_order_end \<and>
   dispatched in_order_end = length main_sites \<and> dispatched in_order_end = 3"
proof -
  have ex: "mainpc in_order_end = Exited" by (simp add: in_order_end_def)
  from runstate_invariant [OF run_first_arrival] runstate_invariant [OF run_in_order] ex
  show ?thesis
    by (simp add: run_first_arrival run_in_order)
       (simp add: first_arrived_def in_order_end_def received_def dispatched_def)
qed

text \<open>
  Claim C9. A download cannot fail, and it sends its one message whatever the site. In
  every execution, for every list of sites: the values received are exactly the messages
  \<open>site + " is done!"\<close> of the downloads that have completed their send, one message
  per download; a download that has not reached its send can always take its next step;
  when nothing can move any more, every site has completed its send; and the execution
  extends to one of \<open>5 * N + 2\<close> steps in all, after which nothing can move and every
  site has completed its send.
\<close>

theorem download_always_sends_done_message:
  assumes "run sites sched init = Some s"
  shows "mset (received s) = mset (map (\<lambda>site. site @ '' is done!'') (sent_sites s)) \<and>
         (\<forall>j<length (goroutines s).
            snd (goroutines s ! j) = Starting \<or> snd (goroutines s ! j) = Sleeping \<longrightarrow>
            download j s \<noteq> None) \<and>
         (enabled sites s = [] \<longrightarrow> sent_sites s = sites) \<and>
         (\<exists>more s'. run sites (sched @ more) init = Some s' \<and>
            length (sched @ more) = 5 * length sites + 2 \<and>
            enabled sites s' = [] \<and> sent_sites s' = sites)"
proof -
  from assms have c: "consistent sites s" by (rule consistent_reachable)
  have eq: "done_message = (\<lambda>site. site @ '' is done!'')"
    by (rule ext) (simp add: done_message_def)
  from c have one: "mset (received s) = mset (map (\<lambda>site. site @ '' is done!'') (sent_sites s))"
    by (simp add: consistent_def eq)
  have two: "\<forall>j<length (goroutines s).
      snd (goroutines s ! j) = Starting \<or> snd (goroutines s ! j) = Sleeping \<longrightarrow>
      download j s \<noteq> None"
    using unsent_can_move [OF c] by blast
  have three: "sent_sites s = sites" if "enabled sites s = []"
  proof -
    from c that have "mainpc s = Exited" by (rule at_rest_Exited)
    with all_sent(3) [OF c] show ?thesis by simp
  qed
  from can_finish [OF c] obtain more s' where
    m: "run sites more s = Some s'" "mainpc s' = Exited" by blast
  from assms m(1) have r: "run sites (sched @ more) init = Some s'" by (simp add: run_append)
  then have c': "consistent sites s'" by (rule consistent_reachable)
  from all_sent [OF c'] m(2) have sent: "sent_sites s' = sites"
      "filter (\<lambda>g. snd g = Sent) (goroutines s') = goroutines s'" by simp_all
  have "sum_list (map (\<lambda>g. download_left (snd g)) (goroutines s')) = 0"
  proof -
    from sent(2) have "\<forall>g\<in>set (goroutines s'). snd g = Sent" by (simp add: filter_id_conv)
    then show ?thesis by (simp add: sum_list_eq_0_iff)
  qed
  with m(2) have "steps_left sites s' = 0" by (simp add: steps_left_def)
  with run_length_bound [OF r] have "length (sched @ more) = 5 * length sites + 2" by simp
  with r sent(1) m(2) have "run sites (sched @ more) init = Some s' \<and>
      length (sched @ more) = 5 * length sites + 2 \<and>
      enabled sites s' = [] \<and> sent_sites s' = sites"
    by (simp add: enabled_Exited)
  then have four: "\<exists>more s'. run sites (sched @ more) init = Some s' \<and>
      length (sched @ more) = 5 * length sites + 2 \<and>
      enabled sites s' = [] \<and> sent_sites s' = sites"
    by blast
  from one two three four show ?thesis by blast
qed

text \<open>After the first arrival, where the Github download has yet to print its first line,
  and at the end of the run that continues from there.\<close>

theorem download_always_sends_done_message_witness:
  "run main_sites first_arrival init = Some first_arrived \<and>
   sent_sites first_arrived = [''Amazon.com''] \<and>
   received first_arrived = [''Amazon.com is done!''] \<and>
   2 < length (goroutines first_arrived) \<and>
   snd (goroutines first_arrived ! 2) = Starting \<and>
   download 2 first_arrived \<noteq> None \<and>
   out_of_order = first_arrival @ drop 9 out_of_order \<and>
   run main_sites out_of_order init = Some out_of_order_end \<and>
   length out_of_order = 5 * length main_sites + 2 \<and>
   enabled main_sites out_of_order_end = [] \<and>
   sent_sites out_of_order_end = main_sites \<and>
   mset (received out_of_order_end) =
     mset (map (\<lambda>site. site @ '' is done!'') main_sites)"
proof -
  have rest: "enabled main_sites out_of_order_end = []"
    by (simp add: enabled_Exited out_of_order_end_def)
  have j: "2 < length (goroutines first_arrived) \<and> snd (goroutines first_arrived ! 2) = Starting"
    by (simp add: first_arrived_def)
  from download_always_sends_done_message [OF run_first_arrival]
    download_always_sends_done_message [OF run_out_of_order] rest j
  show ?thesis
    by (simp add: run_first_arrival run_out_of_order)
       (simp add: first_arrived_def received_def sent_sites_def out_of_order_def
          first_arrival_def main_sites_def)
qed

text \<open>
  Claim C10. In every execution of \<open>main\<close>, wherever the line
  "All downloads finished!" stands in the log of events, three receives come before it,
  every value received before it has also been printed before it, nothing comes after
  it, and \<open>main\<close> has returned.
\<close>

theorem finished_line_after_all_receives:
  assumes "run main_sites sched init = Some s"
    and "trace s = pre @ Printed ''All downloads finished!'' # post"
  shows "post = [] \<and> mainpc s = Exited \<and> length (received_of pre) = 3 \<and>
         mset (received_of pre) \<subseteq># mset (printed_of pre)"
proof -
  from assms(2) have "trace s = pre @ Printed finished_line # post"
    by (simp add: finished_line_def)
  from finished_is_last [OF assms(1) this] show ?thesis by (simp add: main_sites_def)
qed

text \<open>The log of the interleaved run, split at its closing line.\<close>

theorem finished_line_after_all_receives_witness:
  "run main_sites out_of_order init = Some out_of_order_end \<and>
   trace out_of_order_end =
     [Printed ''Starting download from: Google.com'',
      Printed ''Starting download from: Amazon.com'',
      Received ''Amazon.com is done!'',
      Printed ''Starting download from: Github.com'',
      Printed ''Amazon.com is done!'',
      Received ''Github.com is done!'', Printed ''Github.com is done!'',
      Received ''Google.com is done!'', Printed ''Google.com is done!'']
     @ Printed ''All downloads finished!'' # [] \<and>
   mainpc out_of_order_end = Exited \<and>
   length (received_of (butlast (trace out_of_order_end))) = 3"
proof -
  have tr: "trace out_of_order_end =
     [Printed ''Starting download from: Google.com'',
      Printed ''Starting download from: Amazon.com'',
      Received ''Amazon.com is done!'',
      Printed ''Starting download from: Github.com'',
      Printed ''Amazon.com is done!'',
      Received ''Github.com is done!'', Printed ''Github.com is done!'',
      Received ''Google.com is done!'', Printed ''Google.com is done!'']
     @ Printed ''All downloads finished!'' # []"
    by (simp add: out_of_order_end_def)
  from finished_line_after_all_receives [OF run_out_of_order tr] show ?thesis
    by (simp add: run_out_of_order) (simp add: out_of_order_end_def)
qed

section \<open>What the transition system leaves out\<close>

text \<open>
  The embedding has no clock: the sleep of line 31 is one step of unspecified length, so
  nothing is said about how long a run takes. That a send on the unbuffered channel of
  line 37 waits for a receiver is how \<open>handoff\<close> is defined, following the semantics
  of the language, and is not derived from the program. The return of a download after
  its send is not a step: nothing in the program observes it, and the process may end
  before it happens. The source has no failing download, no timeout and no cancellation;
  the only way a run of \<open>main\<close> ends is the return after line 50.
\<close>

end
